theory Spec2Isabelle
  imports Main "HOL-Library.Word"
begin

unbundle bit_operations_syntax

chapter \<open>The k-mer I/O helpers of \<^verbatim>\<open>io_helper.h\<close>\<close>

section \<open>Definitions\<close>

subsection \<open>Undefined behaviour as a value\<close>

text \<open>
  The C++ source has no exceptions and no error returns; what it has instead are
  operations whose behaviour the language leaves undefined. Every one of them that a
  function of the model can reach is a branch of that function returning \<open>None\<close>
  (for the pure bit arithmetic) or \<open>Inl\<close> of a \<open>fault\<close> (for the stateful readers and
  writers), so that a theorem about a result is also a theorem that the result is defined.
  One case is kept apart: a \<^verbatim>\<open>bool\<close> function whose body ends without a \<^verbatim>\<open>return\<close>
  statement has the effects of its body and the result \<open>NoReturn\<close> in place of a value.
\<close>

subsection \<open>ConstantLengthKmerHelper: group split and combine\<close>

text \<open>
  \<^verbatim>\<open>uint8_t kmerlength; uint8_t splitbit;\<close> The template parameter \<^verbatim>\<open>keyType\<close> is an
  unsigned integer type at least as wide as \<^verbatim>\<open>int\<close>; it is modelled as \<open>'a word\<close>, the
  group id \<^verbatim>\<open>uint32_t &grp\<close> as \<open>32 word\<close>.
\<close>

record ConstantLengthKmerHelper =
  kmerlength :: "8 word"
  splitbit :: "8 word"

text \<open>
  \<^verbatim>\<open>int mvcnt = 2 * kmerlength - splitbit;\<close> Both operands are promoted to \<^verbatim>\<open>int\<close>, so the
  difference is computed without wrap-around and is negative when
  \<^verbatim>\<open>splitbit > 2 * kmerlength\<close>.
\<close>

definition mvcnt :: "ConstantLengthKmerHelper \<Rightarrow> int" where
  "mvcnt h = 2 * uint (kmerlength h) - uint (splitbit h)"

text \<open>
  \<^verbatim>\<open>x >> n\<close> and \<^verbatim>\<open>x << n\<close> on an unsigned \<^verbatim>\<open>keyType\<close>: undefined for a negative count
  and for a count that is not smaller than the width of the type.
\<close>

definition shr :: "'a::len word \<Rightarrow> int \<Rightarrow> 'a word option" where
  "shr x n = (if 0 \<le> n \<and> n < int LENGTH('a) then Some (drop_bit (nat n) x) else None)"

definition shl :: "'a::len word \<Rightarrow> int \<Rightarrow> 'a word option" where
  "shl x n = (if 0 \<le> n \<and> n < int LENGTH('a) then Some (push_bit (nat n) x) else None)"

text \<open>
  \<^verbatim>\<open>splitgrp(key, grp, keyInGroup)\<close>: the assignment \<^verbatim>\<open>grp = high\<close> converts \<^verbatim>\<open>keyType\<close> to
  \<^verbatim>\<open>uint32_t\<close> (\<open>ucast\<close>, which keeps the low 32 bits). The two output references are the
  components of the result.
\<close>

definition splitgrp ::
  "ConstantLengthKmerHelper \<Rightarrow> 'a::len word \<Rightarrow> (32 word \<times> 'a word) option" where
  "splitgrp h key =
     (let mv = mvcnt h in
      case shr key mv of
        None \<Rightarrow> None
      | Some high \<Rightarrow>
          (let grp = (ucast high :: 32 word); lowmask = (1 :: 'a word) in
           case shl lowmask mv of
             None \<Rightarrow> None
           | Some lowmask' \<Rightarrow> Some (grp, key AND (lowmask' - 1))))"

text \<open>\<^verbatim>\<open>combgrp(key, grp, keyInGroup)\<close>: \<^verbatim>\<open>key = grp; key <<= (2*kmerlength - splitbit); key |= keyInGroup;\<close>\<close>

definition combgrp ::
  "ConstantLengthKmerHelper \<Rightarrow> 32 word \<Rightarrow> 'a::len word \<Rightarrow> 'a word option" where
  "combgrp h grp keyInGroup =
     (let key = (ucast grp :: 'a word) in
      case shl key (mvcnt h) of
        None \<Rightarrow> None
      | Some key' \<Rightarrow> Some (key' OR keyInGroup))"

subsection \<open>ConstantLengthKmerHelper: text line to key and value\<close>

text \<open>
  A \<^verbatim>\<open>char *\<close> argument is modelled by the list of the characters before its terminating
  NUL; reading at the end of the list is reading that NUL, which is neither a symbol, nor
  white space, nor a sign, nor a digit.

  \<^verbatim>\<open>sscanf(s, "%d", &tv)\<close> is the C library's: it skips white space (\<^verbatim>\<open>isspace\<close> in the
  C locale), accepts one optional sign, then takes the longest run of decimal digits. With
  no digit there it converts nothing and leaves \<^verbatim>\<open>tv\<close> untouched; a number that an \<^verbatim>\<open>int\<close>
  (32 bits) cannot represent has no defined result. \<^verbatim>\<open>%d\<close> stores an \<^verbatim>\<open>int\<close>, so
  \<^verbatim>\<open>valueType\<close> is \<^verbatim>\<open>int\<close>, modelled by the integer it holds.
\<close>

definition isspace :: "char \<Rightarrow> bool" where
  "isspace c \<longleftrightarrow>
     c = CHR '' '' \<or> c = CHR 0x09 \<or> c = CHR 0x0A \<or> c = CHR 0x0B \<or> c = CHR 0x0C \<or> c = CHR 0x0D"

definition isdigit :: "char \<Rightarrow> bool" where
  "isdigit c \<longleftrightarrow> 48 \<le> (of_char c :: nat) \<and> (of_char c :: nat) \<le> 57"

definition decimal :: "string \<Rightarrow> int" where
  "decimal ds = foldl (\<lambda>a c. 10 * a + (of_char c - 48)) 0 ds"

datatype scanned = Assigned int | NoConversion | NotRepresentable

definition sscanf_d :: "string \<Rightarrow> scanned" where
  "sscanf_d s =
     (let t = dropWhile isspace s;
          neg = (t \<noteq> [] \<and> hd t = CHR ''-'');
          u = (if t \<noteq> [] \<and> (hd t = CHR ''-'' \<or> hd t = CHR ''+'') then tl t else t);
          ds = takeWhile isdigit u
      in if ds = [] then NoConversion
         else (let n = (if neg then - decimal ds else decimal ds)
               in if - (2 ^ 31) \<le> n \<and> n < 2 ^ 31 then Assigned n else NotRepresentable))"

text \<open>The loop condition \<^verbatim>\<open>*s == 'A' || *s == 'C' || *s == 'T' || *s == 'G'\<close>.\<close>

definition is_symbol :: "char \<Rightarrow> bool" where
  "is_symbol c \<longleftrightarrow> c = CHR ''A'' \<or> c = CHR ''C'' \<or> c = CHR ''T'' \<or> c = CHR ''G''"

text \<open>
  The inner \<^verbatim>\<open>switch (*s)\<close>, whose cases fall through:
  \<^verbatim>\<open>case 'T': ret++; case 'G': ret++; case 'C': ret++;\<close>
\<close>

definition symbol_switch :: "'a::len word \<Rightarrow> char \<Rightarrow> 'a word" where
  "symbol_switch ret c =
     (if c = CHR ''T'' then ret + 1 + 1 + 1
      else if c = CHR ''G'' then ret + 1 + 1
      else if c = CHR ''C'' then ret + 1
      else ret)"

text \<open>
  The \<^verbatim>\<open>while\<close> loop: \<^verbatim>\<open>ret <<= 2;\<close> then the switch, then \<^verbatim>\<open>s++\<close>. It returns the key
  and the position where scanning stopped.
\<close>

fun symbol_loop :: "'a::len word \<Rightarrow> string \<Rightarrow> 'a word \<times> string" where
  "symbol_loop ret [] = (ret, [])"
| "symbol_loop ret (c # s) =
     (if is_symbol c then symbol_loop (symbol_switch (push_bit 2 ret) c) s else (ret, c # s))"

text \<open>
  \<^verbatim>\<open>valueType tv; sscanf(s, "%d", &tv); *v = tv;\<close> The result of \<^verbatim>\<open>sscanf\<close> is not looked
  at, so \<^verbatim>\<open>*v\<close> receives whatever \<^verbatim>\<open>tv\<close> holds: the converted number, or the
  indeterminate value of an uninitialised local.
\<close>

datatype 'v outval = Initialised 'v | Indeterminate

text \<open>
  \<^verbatim>\<open>convert(s, k, v)\<close>: \<open>None\<close> is \<^verbatim>\<open>return false\<close>, which is reached with \<^verbatim>\<open>*k\<close> and \<^verbatim>\<open>*v\<close>
  not written; \<open>Some (key, value)\<close> is \<^verbatim>\<open>return true\<close> after \<^verbatim>\<open>*k = ret\<close> and \<^verbatim>\<open>*v = tv\<close>.
\<close>

definition convert :: "string \<Rightarrow> ('a::len word \<times> int outval) option" where
  "convert s =
     (case s of
        [] \<Rightarrow> None
      | c # _ \<Rightarrow>
          if c = CHR ''A'' \<or> c = CHR ''T'' \<or> c = CHR ''G'' \<or> c = CHR ''C'' then
            (let (ret, s') = symbol_loop 0 s;
                 tv = (case sscanf_d s' of Assigned n \<Rightarrow> Initialised n | _ \<Rightarrow> Indeterminate)
             in Some (ret, tv))
          else None)"

text \<open>The two-argument overload: \<^verbatim>\<open>valueType v; return convert(s, k, &v);\<close>\<close>

definition convert_key :: "string \<Rightarrow> 'a::len word option" where
  "convert_key s = (case convert s of None \<Rightarrow> None | Some (k, v) \<Rightarrow> Some k)"

text \<open>
  The specification's reading of a symbol run \<open>s\<^sub>0 \<dots> s\<^sub>L\<^sub>-\<^sub>1\<close>:
  \<open>value(A) = 0\<close>, \<open>value(C) = 1\<close>, \<open>value(G) = 2\<close>, \<open>value(T) = 3\<close> and
  \<open>key = \<Sum> value(s\<^sub>i) * 4 ^ (L - 1 - i)\<close>.
\<close>

definition spec_value :: "char \<Rightarrow> nat" where
  "spec_value c =
     (if c = CHR ''A'' then 0 else if c = CHR ''C'' then 1 else if c = CHR ''G'' then 2 else 3)"

definition spec_key :: "string \<Rightarrow> nat" where
  "spec_key s = (\<Sum>i<length s. spec_value (s ! i) * 4 ^ (length s - 1 - i))"

text \<open>The same number computed symbol by symbol, \<open>key = key * 4 + value(symbol)\<close>.\<close>

definition horner :: "nat \<Rightarrow> string \<Rightarrow> nat" where
  "horner a s = foldl (\<lambda>a c. 4 * a + spec_value c) a s"

subsection \<open>The human-readable size\<close>

text \<open>
  \<^verbatim>\<open>ss << word\<close> on a \<^verbatim>\<open>uint64_t\<close> writes the decimal digits of the number, without
  leading zeros.
\<close>

function put_unsigned :: "nat \<Rightarrow> string" where
  "put_unsigned n =
     (if n < 10 then [char_of (48 + n)]
      else put_unsigned (n div 10) @ [char_of (48 + n mod 10)])"
  by pat_completeness auto
termination
  by (relation "measure id") auto

declare put_unsigned.simps [simp del]



subsection \<open>Files and paths\<close>

text \<open>
  What a function of the readers and writers does outside the language's rules: a call of
  the C library on a null or closed \<^verbatim>\<open>FILE *\<close>, \<^verbatim>\<open>strcpy\<close> of a path that does not fit
  \<^verbatim>\<open>char buf[1024]\<close>, the read of \<^verbatim>\<open>buf[strlen(buf)-1]\<close> on an empty path, an index outside
  \<^verbatim>\<open>KVpair buf[1024]\<close>.
\<close>

datatype fault = NullHandle | ClosedHandle | PathOverrun | EmptyPath | SlotOutOfRange

text \<open>
  A \<^verbatim>\<open>FILE *\<close>: the null pointer \<^verbatim>\<open>fopen\<close> returns on failure, a stream open for reading
  with the bytes not yet read, a stream open for writing with the bytes written so far, or
  a stream after \<^verbatim>\<open>fclose\<close> with the bytes it held. A byte is a \<open>char\<close>.
\<close>

datatype FILE = NULL | Open string | Closed string

text \<open>
  \<^verbatim>\<open>fopen(buf, "r")\<close> and \<^verbatim>\<open>fopen(buf, "rb")\<close> against a file system \<open>fs\<close> giving the content
  of every path that can be opened for reading; \<^verbatim>\<open>fopen(buf, "wb")\<close> against the set of
  paths that can be created or truncated.
\<close>

definition fopen_r :: "(string \<Rightarrow> string option) \<Rightarrow> string \<Rightarrow> FILE" where
  "fopen_r fs path = (case fs path of None \<Rightarrow> NULL | Some bytes \<Rightarrow> Open bytes)"

definition fopen_w :: "(string \<Rightarrow> bool) \<Rightarrow> string \<Rightarrow> FILE" where
  "fopen_w creatable path = (if creatable path then Open [] else NULL)"

text \<open>\<^verbatim>\<open>fclose(f)\<close>.\<close>

definition fclose :: "FILE \<Rightarrow> fault + FILE" where
  "fclose f =
     (case f of
        NULL \<Rightarrow> Inl NullHandle
      | Closed _ \<Rightarrow> Inl ClosedHandle
      | Open bytes \<Rightarrow> Inr (Closed bytes))"

text \<open>
  The first lines of the three constructors:
  \<^verbatim>\<open>char buf[1024]; strcpy(buf,fname); if (buf[strlen(buf)-1]=='\n') buf[strlen(buf)-1] = '\0';\<close>
  \<^verbatim>\<open>strcpy\<close> writes the path and its NUL, 1024 bytes at most. The result is the path given
  to \<^verbatim>\<open>fopen\<close>.
\<close>

definition path_buf :: "string \<Rightarrow> fault + string" where
  "path_buf fname =
     (if 1024 \<le> length fname then Inl PathOverrun
      else if fname = [] then Inl EmptyPath
      else if last fname = CHR 0x0A then Inr (butlast fname)
      else Inr fname)"

subsection \<open>KmerFileReader\<close>

text \<open>
  \<^verbatim>\<open>FILE *f; IOHelper<keyType,valueType> *helper;\<close> The helper is the object's virtual
  \<^verbatim>\<open>convert(char *, keyType *, valueType *)\<close>.
\<close>

record 'k KmerFileReader =
  f_txt :: FILE
  helper :: "string \<Rightarrow> ('k \<times> int outval) option"

text \<open>
  The constructor. It calls \<^verbatim>\<open>fopen\<close>, prints the name and the pointer with \<^verbatim>\<open>printf\<close>
  (standard output is not modelled) and returns; the pointer is not tested.
\<close>

definition KmerFileReader_ctor ::
  "(string \<Rightarrow> string option) \<Rightarrow> string \<Rightarrow> (string \<Rightarrow> ('k \<times> int outval) option)
     \<Rightarrow> fault + 'k KmerFileReader" where
  "KmerFileReader_ctor fs fname helper' =
     (case path_buf fname of
        Inl e \<Rightarrow> Inl e
      | Inr buf \<Rightarrow> Inr \<lparr>f_txt = fopen_r fs buf, helper = helper'\<rparr>)"

text \<open>
  \<^verbatim>\<open>fgets(buf, n, f)\<close>: reads until \<open>n - 1\<close> characters are stored, a newline is stored, or
  the stream ends; \<open>None\<close> is the null pointer it returns when the stream ends before any
  character. The result is the line and the bytes left unread.
\<close>

definition fgets :: "nat \<Rightarrow> string \<Rightarrow> (string \<times> string) option" where
  "fgets n bytes =
     (if bytes = [] then None
      else (let upto_newline = length (takeWhile (\<lambda>c. c \<noteq> CHR 0x0A) bytes) + 1;
                len = min (n - 1) upto_newline
            in Some (take len bytes, drop len bytes)))"

text \<open>
  \<^verbatim>\<open>bool getNext(keyType *T, valueType *V)\<close>:
  \<^verbatim>\<open>char buf[1024]; if (fgets(buf,sizeof(buf),f)==NULL) return false; return helper->convert(buf,T,V);\<close>
  The result is the reader after the call and what \<open>convert\<close> models: \<open>None\<close> for
  \<^verbatim>\<open>false\<close>, the key and value written for \<^verbatim>\<open>true\<close>.
\<close>

definition KmerFileReader_getNext ::
  "'k KmerFileReader \<Rightarrow> fault + ('k KmerFileReader \<times> ('k \<times> int outval) option)" where
  "KmerFileReader_getNext r =
     (case f_txt r of
        NULL \<Rightarrow> Inl NullHandle
      | Closed _ \<Rightarrow> Inl ClosedHandle
      | Open bytes \<Rightarrow>
          (case fgets 1024 bytes of
             None \<Rightarrow> Inr (r, None)
           | Some (buf, rest) \<Rightarrow> Inr (r\<lparr>f_txt := Open rest\<rparr>, helper r buf)))"

text \<open>\<^verbatim>\<open>void close() { fclose(f); }\<close> The destructor is \<^verbatim>\<open>close();\<close> again.\<close>

definition KmerFileReader_close :: "'k KmerFileReader \<Rightarrow> fault + 'k KmerFileReader" where
  "KmerFileReader_close r =
     (case fclose (f_txt r) of Inl e \<Rightarrow> Inl e | Inr f' \<Rightarrow> Inr (r\<lparr>f_txt := f'\<rparr>))"

subsection \<open>BinaryKmerReader\<close>

text \<open>
  The template parameter \<^verbatim>\<open>KVpair\<close> is a packed struct that the classes only copy with
  \<^verbatim>\<open>memcpy\<close>, \<^verbatim>\<open>fread\<close> and \<^verbatim>\<open>fwrite\<close>: a record is modelled by its object representation,
  the \<open>sz = sizeof(KVpair)\<close> bytes it occupies, and \<open>sz\<close> is a parameter of the functions.

  \<^verbatim>\<open>FILE * f; static const int buflen = 16; KVpair buf[1024]; int curr = 0; int max = 0;\<close>
\<close>

record BinaryKmerReader =
  f_rd :: FILE
  buf_rd :: "string list"
  curr_rd :: int
  max_rd :: int

definition buflen :: nat where
  "buflen = 16"

text \<open>
  The constructor; \<open>buf0\<close> is what the 1024 slots of the array hold before anything is
  stored in them.
\<close>

definition BinaryKmerReader_ctor ::
  "(string \<Rightarrow> string option) \<Rightarrow> string \<Rightarrow> string list \<Rightarrow> fault + BinaryKmerReader" where
  "BinaryKmerReader_ctor fs fname buf0 =
     (case path_buf fname of
        Inl e \<Rightarrow> Inl e
      | Inr buf \<Rightarrow> Inr \<lparr>f_rd = fopen_r fs buf, buf_rd = buf0, curr_rd = 0, max_rd = 0\<rparr>)"

text \<open>
  \<^verbatim>\<open>fread(buf, size, n, f)\<close> into the array \<open>slots\<close>: it stores the complete records it can
  read, \<open>n\<close> at most, in the first slots and returns their number; the bytes of an
  incomplete last record are read too, over the beginning of the next slot, and are not
  counted. The result is the array, the count and the bytes left unread.
\<close>

definition fread :: "string list \<Rightarrow> nat \<Rightarrow> nat \<Rightarrow> string \<Rightarrow> string list \<times> nat \<times> string" where
  "fread slots sz n bytes =
     (if sz = 0 then (slots, 0, bytes)
      else (let k = min n (length bytes div sz);
                items = map (\<lambda>i. take sz (drop (i * sz) bytes)) [0..<k];
                part = (if k < n then drop (k * sz) bytes else []);
                slots1 = items @ drop k slots;
                slots2 = (if part \<noteq> [] \<and> k < length slots1
                          then slots1[k := part @ drop (length part) (slots1 ! k)] else slots1)
            in (slots2, k, drop (n * sz) bytes)))"

text \<open>
  What a call of \<^verbatim>\<open>bool getNext(KVpair *ret)\<close> gives its caller: the value of a \<^verbatim>\<open>return\<close>
  statement, or nothing when control reaches the closing brace of the function.
\<close>

datatype retval = Returns bool | NoReturn

text \<open>\<^verbatim>\<open>memcpy(ret, &buf[curr], sizeof(buf[curr])); curr++;\<close> and the end of the function.\<close>

definition copy_out :: "BinaryKmerReader \<Rightarrow> fault + (BinaryKmerReader \<times> string option \<times> retval)" where
  "copy_out r =
     (if 0 \<le> curr_rd r \<and> curr_rd r < int (length (buf_rd r))
      then Inr (r\<lparr>curr_rd := curr_rd r + 1\<rparr>, Some (buf_rd r ! nat (curr_rd r)), NoReturn)
      else Inl SlotOutOfRange)"

text \<open>
  \<^verbatim>\<open>if (curr == max) { max = fread(buf,sizeof(buf[0]),buflen,f); if (max == 0) return false; curr = 0; }\<close>
  The second component of the result is the record stored in \<^verbatim>\<open>*ret\<close>, \<open>None\<close> when
  \<^verbatim>\<open>*ret\<close> is not written.
\<close>

definition BinaryKmerReader_getNext ::
  "nat \<Rightarrow> BinaryKmerReader \<Rightarrow> fault + (BinaryKmerReader \<times> string option \<times> retval)" where
  "BinaryKmerReader_getNext sz r =
     (if curr_rd r = max_rd r then
        (case f_rd r of
           NULL \<Rightarrow> Inl NullHandle
         | Closed _ \<Rightarrow> Inl ClosedHandle
         | Open bytes \<Rightarrow>
             (let (slots, k, rest) = fread (buf_rd r) sz buflen bytes;
                  r1 = r\<lparr>f_rd := Open rest, buf_rd := slots, max_rd := int k\<rparr>
              in if int k = 0 then Inr (r1, None, Returns False)
                 else copy_out (r1\<lparr>curr_rd := 0\<rparr>)))
      else copy_out r)"

text \<open>The destructor: \<^verbatim>\<open>fclose(f);\<close>\<close>

definition BinaryKmerReader_dtor :: "BinaryKmerReader \<Rightarrow> fault + BinaryKmerReader" where
  "BinaryKmerReader_dtor r =
     (case fclose (f_rd r) of Inl e \<Rightarrow> Inl e | Inr f' \<Rightarrow> Inr (r\<lparr>f_rd := f'\<rparr>))"

subsection \<open>BinaryKmerWriter\<close>

text \<open>\<^verbatim>\<open>FILE *f; int curr = 0; static const int buflen = 16; KVpair buf[1024];\<close>\<close>

record BinaryKmerWriter =
  f_wr :: FILE
  curr_wr :: int
  buf_wr :: "string list"

definition BinaryKmerWriter_ctor ::
  "(string \<Rightarrow> bool) \<Rightarrow> string \<Rightarrow> string list \<Rightarrow> fault + BinaryKmerWriter" where
  "BinaryKmerWriter_ctor creatable fname buf0 =
     (case path_buf fname of
        Inl e \<Rightarrow> Inl e
      | Inr buf \<Rightarrow> Inr \<lparr>f_wr = fopen_w creatable buf, curr_wr = 0, buf_wr = buf0\<rparr>)"

text \<open>
  \<^verbatim>\<open>fwrite(buf, size, n, f)\<close> appends the first \<open>n\<close> slots of the array to the stream. The
  source ignores its result; a write the device refuses is not modelled.
\<close>

definition fwrite :: "string list \<Rightarrow> nat \<Rightarrow> FILE \<Rightarrow> fault + FILE" where
  "fwrite slots n f =
     (case f of
        NULL \<Rightarrow> Inl NullHandle
      | Closed _ \<Rightarrow> Inl ClosedHandle
      | Open bytes \<Rightarrow> Inr (Open (bytes @ concat (take n slots))))"

text \<open>
  \<^verbatim>\<open>void write(KVpair *p)\<close>:
  \<^verbatim>\<open>memcpy(&buf[curr],p,sizeof(buf[curr])); curr++; if (curr == buflen) { fwrite(buf,sizeof(buf[0]),buflen,f); curr = 0; }\<close>
  The argument is the record \<^verbatim>\<open>*p\<close>.
\<close>

definition BinaryKmerWriter_write :: "BinaryKmerWriter \<Rightarrow> string \<Rightarrow> fault + BinaryKmerWriter" where
  "BinaryKmerWriter_write w p =
     (if 0 \<le> curr_wr w \<and> curr_wr w < int (length (buf_wr w)) then
        (let w1 = w\<lparr>buf_wr := (buf_wr w)[nat (curr_wr w) := p], curr_wr := curr_wr w + 1\<rparr>
         in if curr_wr w1 = int buflen then
              (case fwrite (buf_wr w1) buflen (f_wr w1) of
                 Inl e \<Rightarrow> Inl e
               | Inr f' \<Rightarrow> Inr (w1\<lparr>f_wr := f', curr_wr := 0\<rparr>))
            else Inr w1)
      else Inl SlotOutOfRange)"

text \<open>\<^verbatim>\<open>void finish()\<close>: \<^verbatim>\<open>fwrite(buf,sizeof(buf[0]),curr,f); curr = 0; fclose(f);\<close>\<close>

definition BinaryKmerWriter_finish :: "BinaryKmerWriter \<Rightarrow> fault + BinaryKmerWriter" where
  "BinaryKmerWriter_finish w =
     (case fwrite (buf_wr w) (nat (curr_wr w)) (f_wr w) of
        Inl e \<Rightarrow> Inl e
      | Inr f' \<Rightarrow>
          (case fclose f' of
             Inl e \<Rightarrow> Inl e
           | Inr f'' \<Rightarrow> Inr (w\<lparr>f_wr := f'', curr_wr := 0\<rparr>)))"

text \<open>A caller writing the records of a list one by one.\<close>

fun write_all :: "BinaryKmerWriter \<Rightarrow> string list \<Rightarrow> fault + BinaryKmerWriter" where
  "write_all w [] = Inr w"
| "write_all w (p # ps) =
     (case BinaryKmerWriter_write w p of Inl e \<Rightarrow> Inl e | Inr w' \<Rightarrow> write_all w' ps)"

subsection \<open>What a reader has yet to deliver, what a writer has taken\<close>

text \<open>
  Two relations for the proofs. A reader in a state reached through \<open>getNext\<close> calls that
  all delivered a record still has to deliver the records \<open>rs\<close>: the buffered ones from
  \<^verbatim>\<open>curr\<close> up to \<^verbatim>\<open>max\<close>, then the whole records the stream holds. A writer before
  \<open>finish\<close> has taken the bytes \<open>bytes\<close>: the ones in the stream, then the \<^verbatim>\<open>curr\<close>
  buffered records.
\<close>

definition unread_records :: "nat \<Rightarrow> BinaryKmerReader \<Rightarrow> string list \<Rightarrow> bool" where
  "unread_records sz r rs \<longleftrightarrow>
     (\<exists>q. f_rd r = Open (concat q) \<and> (\<forall>x\<in>set q. length x = sz)
        \<and> rs = drop (nat (curr_rd r)) (take (nat (max_rd r)) (buf_rd r)) @ q)
     \<and> 0 \<le> curr_rd r \<and> curr_rd r \<le> max_rd r \<and> max_rd r \<le> int buflen
     \<and> buflen \<le> length (buf_rd r)"

definition written_records :: "BinaryKmerWriter \<Rightarrow> string \<Rightarrow> bool" where
  "written_records w bytes \<longleftrightarrow>
     (\<exists>flushed. f_wr w = Open flushed
        \<and> bytes = flushed @ concat (take (nat (curr_wr w)) (buf_wr w)))
     \<and> 0 \<le> curr_wr w \<and> curr_wr w < int buflen \<and> buflen \<le> length (buf_wr w)"

section \<open>Properties\<close>

subsection \<open>Group split and combine\<close>

lemma lowmask_decr: "push_bit n (1 :: 'a::len word) - 1 = mask n"
  by (simp add: mask_eq_exp_minus_1 push_bit_eq_mult)

lemma small_take_bit: "unat (key :: 'a::len word) < 2 ^ m \<Longrightarrow> take_bit m key = key"
  by (metis take_bit_nat_eq_self_iff unsigned_take_bit_eq word_eq_iff_unsigned)

lemma bit_small:
  assumes "unat (key :: 'a::len word) < 2 ^ m" "bit key i"
  shows "i < m"
proof -
  have "bit (take_bit m key) i" using assms by (simp add: small_take_bit)
  then show ?thesis by (simp add: bit_take_bit_iff)
qed

lemma recombine:
  fixes key :: "'a::len word"
  assumes "unat key < 2 ^ (n + b)" "b \<le> 32"
  shows "push_bit n (ucast (ucast (drop_bit n key) :: 32 word) :: 'a word) OR (key AND mask n) = key"
proof (rule bit_eqI)
  fix i
  assume "possible_bit TYPE('a word) i"
  show "bit (push_bit n (ucast (ucast (drop_bit n key) :: 32 word) :: 'a word) OR (key AND mask n)) i = bit key i"
    using bit_small[OF assms(1), of i] assms(2)
    by (auto simp add: bit_simps dest: bit_imp_le_length)
qed

lemma small_bits:
  fixes x :: "'a::len word"
  assumes "\<And>i. bit x i \<Longrightarrow> i < m"
  shows "unat x < 2 ^ m"
proof -
  have "take_bit m x = x"
    by (rule bit_eqI) (auto simp add: bit_take_bit_iff dest: assms)
  then have "unat x = take_bit m (unat x)"
    by (metis unsigned_take_bit_eq)
  also have "\<dots> < 2 ^ m" by (rule take_bit_nat_less_exp)
  finally show ?thesis .
qed

lemma unat_small_drop:
  assumes "unat (key :: 'a::len word) < 2 ^ (n + b)"
  shows "unat (drop_bit n key) < 2 ^ b"
proof (rule small_bits)
  fix i assume "bit (drop_bit n key) i"
  then have "bit key (n + i)" by (simp add: bit_simps)
  from bit_small[OF assms this] show "i < b" by simp
qed

lemma unat_and_mask: "unat ((key :: 'a::len word) AND mask n) < 2 ^ n"
  by (rule small_bits) (simp add: bit_simps)

lemma unat_ucast_down:
  assumes "unat (x :: 'a::len word) < 2 ^ b"
  shows "unat (ucast x :: 'b::len word) < 2 ^ b"
proof (rule small_bits)
  fix i assume "bit (ucast x :: 'b word) i"
  then have "bit x i" by (simp add: bit_simps)
  from bit_small[OF assms this] show "i < b" .
qed

lemma split_of_comb:
  fixes kig :: "'a::len word" and grp :: "32 word"
  assumes g: "unat grp < 2 ^ b" and k: "unat kig < 2 ^ n" and len: "n + b \<le> LENGTH('a)"
  shows "ucast (drop_bit n (push_bit n (ucast grp :: 'a word) OR kig)) = grp"
   and "(push_bit n (ucast grp :: 'a word) OR kig) AND mask n = kig"
   and "unat (push_bit n (ucast grp :: 'a word) OR kig) < 2 ^ (n + b)"
proof -
  have gb: "i < b" if "bit grp i" for i using bit_small[OF g that] .
  have kb: "i < n" if "bit kig i" for i using bit_small[OF k that] .
  show "ucast (drop_bit n (push_bit n (ucast grp :: 'a word) OR kig)) = grp"
  proof (rule bit_eqI)
    fix i
    have "\<not> bit kig (n + i)" using kb[of "n + i"] by auto
    moreover have "n + i < LENGTH('a)" if "bit grp i" using gb[OF that] len by simp
    ultimately show "bit (ucast (drop_bit n (push_bit n (ucast grp :: 'a word) OR kig)) :: 32 word) i = bit grp i"
      by (auto simp add: bit_simps dest: bit_imp_le_length)
  qed
  show "(push_bit n (ucast grp :: 'a word) OR kig) AND mask n = kig"
  proof (rule bit_eqI)
    fix i
    show "bit ((push_bit n (ucast grp :: 'a word) OR kig) AND mask n) i = bit kig i"
      using kb[of i] by (auto simp add: bit_simps dest: bit_imp_le_length)
  qed
  show "unat (push_bit n (ucast grp :: 'a word) OR kig) < 2 ^ (n + b)"
  proof (rule small_bits)
    fix i assume "bit (push_bit n (ucast grp :: 'a word) OR kig) i"
    then consider "n \<le> i" "bit grp (i - n)" | "bit kig i"
      by (auto simp add: bit_simps)
    then show "i < n + b"
    proof cases
      case 1 then show ?thesis using gb[of "i - n"] by simp
    next
      case 2 then show ?thesis using kb[of i] by simp
    qed
  qed
qed

text \<open>
  C1 (amended). Let \<open>L = kmerlength\<close>, \<open>B = splitbit\<close> and \<open>n = 2L - B\<close>. When \<open>B \<le> 2L\<close>,
  \<open>B \<le> 32\<close> (the group id is a \<^verbatim>\<open>uint32_t\<close>) and \<open>n\<close> is smaller than the width of the key
  type (the shifts are defined), every key below \<open>4 ^ L\<close> is split into \<open>grp = key >> n\<close>,
  with no bit lost in the conversion to 32 bits, and \<open>keyInGroup = key & ((1 << n) - 1)\<close>,
  with \<open>grp < 2 ^ B\<close> and \<open>keyInGroup < 2 ^ n\<close>, and \<open>combgrp\<close> gives the key back.
  Conversely, in a key type of at least \<open>2L\<close> bits, every pair \<open>grp < 2 ^ B\<close>,
  \<open>keyInGroup < 2 ^ n\<close> is combined into a key below \<open>4 ^ L\<close> that is split into that pair.
  So \<open>splitgrp\<close> is a bijection from \<open>[0, 4 ^ L)\<close> to \<open>[0, 2 ^ B) \<times> [0, 2 ^ n)\<close>, with
  inverse \<open>combgrp\<close>.
\<close>

theorem splitgrp_combgrp_bijection:
  fixes key :: "'a::len word" and grp' :: "32 word" and kig' :: "'a word"
  assumes B_le_2L: "unat (splitbit h) \<le> 2 * unat (kmerlength h)"
    and B_le_32: "unat (splitbit h) \<le> 32"
    and shift: "2 * unat (kmerlength h) - unat (splitbit h) < LENGTH('a)"
  defines "n \<equiv> 2 * unat (kmerlength h) - unat (splitbit h)"
  shows "(unat key < 4 ^ unat (kmerlength h) \<longrightarrow>
           (\<exists>grp kig. splitgrp h key = Some (grp, kig)
              \<and> grp = ucast (drop_bit n key) \<and> unat grp = unat key div 2 ^ n
              \<and> kig = key AND (push_bit n 1 - 1) \<and> unat kig = unat key mod 2 ^ n
              \<and> unat grp < 2 ^ unat (splitbit h) \<and> unat kig < 2 ^ n
              \<and> combgrp h grp kig = Some key))
       \<and> (2 * unat (kmerlength h) \<le> LENGTH('a)
            \<and> unat grp' < 2 ^ unat (splitbit h) \<and> unat kig' < 2 ^ n \<longrightarrow>
           (\<exists>key'. combgrp h grp' kig' = Some key' \<and> unat key' < 4 ^ unat (kmerlength h)
              \<and> splitgrp h key' = Some (grp', kig')))"
proof -
  have mv: "mvcnt h = int n"
    using B_le_2L by (simp add: mvcnt_def n_def)
  have nlt: "n < LENGTH('a)" using shift by (simp add: n_def)
  have nB: "n + unat (splitbit h) = 2 * unat (kmerlength h)"
    using B_le_2L by (simp add: n_def)
  have four: "(4::nat) ^ unat (kmerlength h) = 2 ^ (n + unat (splitbit h))"
    by (simp add: nB power_mult)
  have split_eq: "splitgrp h k = Some (ucast (drop_bit n k), k AND mask n)" for k :: "'a word"
    using nlt by (simp add: splitgrp_def mv shr_def shl_def mask_eq_exp_minus_1)
  have comb_eq: "combgrp h g k = Some (push_bit n (ucast g) OR k)" for g and k :: "'a word"
    using nlt by (simp add: combgrp_def mv shl_def)
  have forward: "\<exists>grp kig. splitgrp h key = Some (grp, kig)
              \<and> grp = ucast (drop_bit n key) \<and> unat grp = unat key div 2 ^ n
              \<and> kig = key AND (push_bit n 1 - 1) \<and> unat kig = unat key mod 2 ^ n
              \<and> unat grp < 2 ^ unat (splitbit h) \<and> unat kig < 2 ^ n
              \<and> combgrp h grp kig = Some key"
    if small: "unat key < 4 ^ unat (kmerlength h)"
  proof -
    let ?grp = "ucast (drop_bit n key) :: 32 word"
    let ?kig = "key AND mask n"
    from small have key2: "unat key < 2 ^ (n + unat (splitbit h))" by (simp add: four)
    have high: "unat (drop_bit n key) < 2 ^ unat (splitbit h)"
      by (rule unat_small_drop[OF key2])
    have "unat (drop_bit n key) < 2 ^ 32"
      using high B_le_32
      by (meson less_le_trans one_le_numeral power_increasing)
    then have "unat ?grp = unat (drop_bit n key)"
      by (simp add: unsigned_ucast_eq take_bit_nat_eq_self)
    also have "\<dots> = unat key div 2 ^ n"
      by (subst unat_drop_bit_eq) (rule drop_bit_eq_div)
    finally have g1: "unat ?grp = unat key div 2 ^ n" .
    have g2: "unat ?grp < 2 ^ unat (splitbit h)"
      by (rule unat_ucast_down[OF high])
    have k1: "unat ?kig = unat key mod 2 ^ n"
      by (metis take_bit_eq_mask take_bit_eq_mod unsigned_take_bit_eq)
    have k2: "unat ?kig < 2 ^ n" by (rule unat_and_mask)
    have rt: "combgrp h ?grp ?kig = Some key"
      by (simp add: comb_eq recombine[OF key2 B_le_32])
    show ?thesis
      unfolding lowmask_decr using g1 g2 k1 k2 rt by (simp add: split_eq)
  qed
  have backward: "\<exists>key'. combgrp h grp' kig' = Some key' \<and> unat key' < 4 ^ unat (kmerlength h)
              \<and> splitgrp h key' = Some (grp', kig')"
    if width: "2 * unat (kmerlength h) \<le> LENGTH('a)"
      and g: "unat grp' < 2 ^ unat (splitbit h)" and k: "unat kig' < 2 ^ n"
  proof -
    have len: "n + unat (splitbit h) \<le> LENGTH('a)" using width by (simp add: nB)
    note sc = split_of_comb[OF g k len]
    show ?thesis
      using sc by (simp add: comb_eq split_eq four)
  qed
  show ?thesis using forward backward by blast
qed

text \<open>The example of the specification: \<open>L = 4\<close>, \<open>B = 2\<close>, key 107, group 1, remainder 43.\<close>

theorem splitgrp_combgrp_bijection_witness:
  "unat (2 :: 8 word) \<le> 2 * unat (4 :: 8 word) \<and> unat (2 :: 8 word) \<le> 32
   \<and> 2 * unat (4 :: 8 word) - unat (2 :: 8 word) < LENGTH(64)
   \<and> unat (107 :: 64 word) < 4 ^ 4 \<and> unat (1 :: 32 word) < 2 ^ 2 \<and> unat (43 :: 64 word) < 2 ^ 6
   \<and> splitgrp \<lparr>kmerlength = 4, splitbit = 2\<rparr> (107 :: 64 word) = Some (1, 43)
   \<and> combgrp \<lparr>kmerlength = 4, splitbit = 2\<rparr> 1 (43 :: 64 word) = Some 107"
  using splitgrp_combgrp_bijection
    [where h = "\<lparr>kmerlength = 4, splitbit = 2\<rparr>" and key = "107 :: 64 word"
       and grp' = 1 and kig' = 43]
  by (simp add: splitgrp_def combgrp_def mvcnt_def shr_def shl_def)

text \<open>
  C1 as stated allows every \<open>B \<le> 2L\<close>. With a 64-bit key, \<open>L = 20\<close> and \<open>B = 40\<close> the key
  \<open>2 ^ 32 < 4 ^ 20\<close> is shifted by \<open>n = 0\<close>, its bit 32 does not fit the 32-bit group id, and
  the pair \<open>(0, 0)\<close> is combined into \<open>0\<close>.
\<close>

theorem splitgrp_combgrp_wide_group_counterexample:
  "unat (40 :: 8 word) \<le> 2 * unat (20 :: 8 word) \<and> unat (2 ^ 32 :: 64 word) < 4 ^ 20
   \<and> splitgrp \<lparr>kmerlength = 20, splitbit = 40\<rparr> (2 ^ 32 :: 64 word) = Some (0, 0)
   \<and> combgrp \<lparr>kmerlength = 20, splitbit = 40\<rparr> 0 0 = Some (0 :: 64 word)
   \<and> (0 :: 64 word) \<noteq> 2 ^ 32"
  by (simp add: splitgrp_def combgrp_def mvcnt_def shr_def shl_def)

text \<open>
  The other bound of the amended claim. With a 64-bit key, \<open>L = 32\<close> and \<open>B = 0\<close> the shift
  count is 64, the width of the type, and neither \<^verbatim>\<open>key >> mvcnt\<close> nor \<^verbatim>\<open>lowmask <<= mvcnt\<close>
  has a defined result.
\<close>

lemma splitgrp_full_width_shift:
  "mvcnt \<lparr>kmerlength = 32, splitbit = 0\<rparr> = 64
   \<and> splitgrp \<lparr>kmerlength = 32, splitbit = 0\<rparr> (key :: 64 word) = None
   \<and> combgrp \<lparr>kmerlength = 32, splitbit = 0\<rparr> grp (kig :: 64 word) = None"
  by (simp add: splitgrp_def combgrp_def mvcnt_def shr_def shl_def)

subsection \<open>Text line to key and value\<close>

lemma horner_simps [simp]:
  "horner a [] = a" "horner a (c # s) = horner (4 * a + spec_value c) s"
  "horner a (s @ [c]) = 4 * horner a s + spec_value c"
  by (simp_all add: horner_def)

lemma symbol_switch_of_nat:
  "is_symbol c \<Longrightarrow> symbol_switch (push_bit 2 (of_nat a)) c = (of_nat (4 * a + spec_value c) :: 'a::len word)"
  by (auto simp add: is_symbol_def symbol_switch_def spec_value_def push_bit_eq_mult)

lemma symbol_loop_run:
  assumes "\<forall>c\<in>set run. is_symbol c" "rest = [] \<or> \<not> is_symbol (hd rest)"
  shows "symbol_loop (of_nat a :: 'a::len word) (run @ rest) = (of_nat (horner a run), rest)"
  using assms
proof (induction run arbitrary: a)
  case Nil
  then show ?case by (cases rest) auto
next
  case (Cons c run)
  then have c: "is_symbol c" and run: "\<forall>c\<in>set run. is_symbol c" by simp_all
  have "symbol_loop (of_nat a :: 'a word) ((c # run) @ rest)
      = symbol_loop (symbol_switch (push_bit 2 (of_nat a)) c) (run @ rest)"
    using c by simp
  also have "\<dots> = symbol_loop (of_nat (4 * a + spec_value c)) (run @ rest)"
    by (simp only: symbol_switch_of_nat[OF c])
  also have "\<dots> = (of_nat (horner (4 * a + spec_value c) run), rest)"
    by (rule Cons.IH[OF run Cons.prems(2)])
  finally show ?case by simp
qed

lemma horner_spec_key: "horner 0 s = spec_key s"
proof (induction s rule: rev_induct)
  case Nil
  then show ?case by (simp add: spec_key_def)
next
  case (snoc c s)
  have "(\<Sum>i<length s. spec_value ((s @ [c]) ! i) * 4 ^ (length s - i))
      = (\<Sum>i<length s. 4 * (spec_value (s ! i) * 4 ^ (length s - 1 - i)))"
  proof (rule sum.cong)
    fix i assume "i \<in> {..<length s}"
    then have i: "i < length s" by simp
    then have "length s - i = Suc (length s - 1 - i)" by simp
    then show "spec_value ((s @ [c]) ! i) * 4 ^ (length s - i) = 4 * (spec_value (s ! i) * 4 ^ (length s - 1 - i))"
      using i by (simp add: nth_append)
  qed simp
  then show ?case
    using snoc by (simp add: spec_key_def sum_distrib_left)
qed

lemma spec_value_le: "spec_value c \<le> 3"
  by (simp add: spec_value_def)

lemma horner_bound: "a < 4 ^ m \<Longrightarrow> horner a s < 4 ^ (m + length s)"
proof (induction s arbitrary: a m)
  case Nil
  then show ?case by simp
next
  case (Cons c s)
  have "4 * a + spec_value c < 4 ^ Suc m"
    using Cons.prems spec_value_le[of c] by simp
  from Cons.IH[OF this] show ?case by simp
qed

lemma spec_key_bound: "spec_key s < 4 ^ length s"
  using horner_bound[of 0 0 s] by (simp add: horner_spec_key)

lemma isdigit_not_space: "isdigit c \<Longrightarrow> \<not> isspace c"
  by (auto simp add: isdigit_def isspace_def)

lemma isdigit_not_sign: "isdigit c \<Longrightarrow> c \<noteq> CHR ''-'' \<and> c \<noteq> CHR ''+''"
  by (auto simp add: isdigit_def)

lemma isdigit_not_symbol: "isdigit c \<Longrightarrow> \<not> is_symbol c"
  by (auto simp add: isdigit_def is_symbol_def)

lemma isspace_not_symbol: "isspace c \<Longrightarrow> \<not> is_symbol c"
  by (auto simp add: isspace_def is_symbol_def)

lemma takeWhile_digits:
  assumes "\<forall>c\<in>set ds. isdigit c" "tail = [] \<or> \<not> isdigit (hd tail)"
  shows "takeWhile isdigit (ds @ tail) = ds"
  using assms by (cases tail) auto

lemma dropWhile_spaces:
  assumes "\<forall>c\<in>set ws. isspace c" "t \<noteq> []" "\<not> isspace (hd t)"
  shows "dropWhile isspace (ws @ t) = t"
  using assms by (cases t) auto

lemma sscanf_d_token:
  assumes ws: "\<forall>c\<in>set ws. isspace c"
    and sg: "sg = [] \<or> sg = ''+'' \<or> sg = ''-''"
    and ds: "ds \<noteq> []" "\<forall>c\<in>set ds. isdigit c"
    and tail: "tail = [] \<or> \<not> isdigit (hd tail)"
    and range: "- (2 ^ 31) \<le> n" "n < 2 ^ 31"
    and n: "n = (if sg = ''-'' then - decimal ds else decimal ds)"
  shows "sscanf_d (ws @ sg @ ds @ tail) = Assigned n"
proof -
  obtain d ds' where dsc: "ds = d # ds'" using ds(1) by (cases ds) auto
  then have d: "isdigit d" using ds(2) by simp
  have tw: "takeWhile isdigit (ds @ tail) = ds" by (rule takeWhile_digits[OF ds(2) tail])
  have ne: "sg @ ds @ tail \<noteq> []" using ds(1) by simp
  have hd: "\<not> isspace (hd (sg @ ds @ tail))"
    using sg d isdigit_not_space[OF d] by (auto simp add: dsc isspace_def)
  have dw: "dropWhile isspace (ws @ sg @ ds @ tail) = sg @ ds @ tail"
    by (rule dropWhile_spaces[OF ws ne hd])
  from sg show ?thesis
  proof (elim disjE)
    assume "sg = []"
    then show ?thesis
      using dw tw range n isdigit_not_sign[OF d] ds(1)
      by (simp add: sscanf_d_def Let_def dsc)
  next
    assume "sg = ''+''"
    then show ?thesis
      using dw tw range n ds(1)
      by (simp add: sscanf_d_def Let_def)
  next
    assume "sg = ''-''"
    then show ?thesis
      using dw tw range n ds(1)
      by (simp add: sscanf_d_def Let_def)
  qed
qed


lemma convert_symbol_first:
  assumes "s \<noteq> []" and "is_symbol (hd s)"
  shows "convert s =
     (let (ret, s') = symbol_loop 0 s;
          tv = (case sscanf_d s' of Assigned n \<Rightarrow> Initialised n | _ \<Rightarrow> Indeterminate)
      in Some (ret, tv))"
  using assms by (cases s) (auto simp add: convert_def is_symbol_def)

text \<open>
  C3. A line made of a non-empty run of A/C/G/T symbols, optional white space and an
  integer token (an optional sign and decimal digits, ended by the end of the line or a
  character that is not a digit) whose number \<open>C\<close> an \<^verbatim>\<open>int\<close> can hold: \<open>convert\<close> succeeds,
  the value is \<open>C\<close>, and the key is \<open>\<Sum> value(s\<^sub>i) * 4 ^ (L - 1 - i)\<close> in the key type, which
  is that number itself when the key type has the \<open>2L\<close> bits the data model asks for. The
  scan stops at the first character after the run.
\<close>

theorem convert_symbol_run_value:
  fixes run ws sg ds tail :: string and C :: int
  assumes run: "run \<noteq> []" "\<forall>c\<in>set run. is_symbol c"
    and ws: "\<forall>c\<in>set ws. isspace c"
    and sg: "sg = [] \<or> sg = ''+'' \<or> sg = ''-''"
    and ds: "ds \<noteq> []" "\<forall>c\<in>set ds. isdigit c"
    and tail: "tail = [] \<or> \<not> isdigit (hd tail)"
    and C: "C = (if sg = ''-'' then - decimal ds else decimal ds)"
    and range: "- (2 ^ 31) \<le> C" "C < 2 ^ 31"
  shows "\<exists>k :: 'a::len word.
           convert (run @ ws @ sg @ ds @ tail) = Some (k, Initialised C)
         \<and> k = of_nat (spec_key run)
         \<and> (2 * length run \<le> LENGTH('a) \<longrightarrow> unat k = spec_key run)
         \<and> symbol_loop 0 (run @ ws @ sg @ ds @ tail) = (k, ws @ sg @ ds @ tail)"
proof -
  let ?rest = "ws @ sg @ ds @ tail"
  let ?k = "of_nat (spec_key run) :: 'a word"
  obtain d ds' where dsc: "ds = d # ds'" using ds(1) by (cases ds) auto
  then have d: "isdigit d" using ds(2) by simp
  have stop: "?rest = [] \<or> \<not> is_symbol (hd ?rest)"
  proof (cases ws)
    case Nil
    then show ?thesis
      using sg isdigit_not_symbol[OF d] by (auto simp add: dsc is_symbol_def)
  next
    case (Cons w ws')
    then show ?thesis using ws isspace_not_symbol[of w] by simp
  qed
  have loop: "symbol_loop (0 :: 'a word) (run @ ?rest) = (?k, ?rest)"
    using symbol_loop_run[OF run(2) stop, of 0, where ?'a = 'a]
    by (simp add: horner_spec_key)
  obtain r run' where runc: "run = r # run'" using run(1) by (cases run) auto
  then have r: "is_symbol r" using run(2) by simp
  have scan: "sscanf_d ?rest = Assigned C"
    by (rule sscanf_d_token[OF ws sg ds tail range C])
  have conv: "convert (run @ ?rest) = Some (?k, Initialised C)"
  proof -
    have "convert (run @ ?rest)
        = (let (ret, s') = symbol_loop (0 :: 'a word) (run @ ?rest);
               tv = (case sscanf_d s' of Assigned n \<Rightarrow> Initialised n | _ \<Rightarrow> Indeterminate)
           in Some (ret, tv))"
      using r by (auto simp add: convert_def runc is_symbol_def)
    then show ?thesis by (simp add: loop scan)
  qed
  have exact: "unat ?k = spec_key run" if "2 * length run \<le> LENGTH('a)"
  proof -
    have "spec_key run < 2 ^ (2 * length run)"
      using spec_key_bound[of run] by (simp add: power_mult)
    also have "\<dots> \<le> 2 ^ LENGTH('a)"
      using that by (simp add: power_increasing)
    finally show ?thesis by (simp add: unat_of_nat)
  qed
  show ?thesis using conv loop exact by simp
qed

text \<open>
  The line \<^verbatim>\<open>ACGT 12x\<close>: key \<open>0 * 64 + 1 * 16 + 2 * 4 + 3 = 27\<close>, value 12.
\<close>

theorem convert_symbol_run_value_witness:
  "(convert ''ACGT 12x'' :: (64 word \<times> int outval) option) = Some (27, Initialised 12)
   \<and> spec_key ''ACGT'' = 27 \<and> decimal ''12'' = 12"
  using convert_symbol_run_value [of "''ACGT''" "'' ''" "''''" "''12''" "''x''" 12, where ?'a = 64]
  apply (simp add: is_symbol_def isspace_def isdigit_def decimal_def)
  by (simp add: spec_key_def spec_value_def lessThan_nat_numeral lessThan_Suc)




subsection \<open>The human-readable size\<close>









subsection \<open>Keys of arbitrary lines, decimal notation\<close>

text \<open>
  Whatever the line, a successful \<open>convert\<close> gives the key of the longest leading run of
  symbols, and the two-argument overload gives the same key.
\<close>

lemma convert_key_of_leading_run:
  assumes "convert s = Some (k :: 'a::len word, v)"
  shows "k = of_nat (spec_key (takeWhile is_symbol s))"
    and "convert_key s = Some k"
proof -
  let ?run = "takeWhile is_symbol s" and ?rest = "dropWhile is_symbol s"
  have stop: "?rest = [] \<or> \<not> is_symbol (hd ?rest)"
    using hd_dropWhile[of is_symbol s] by auto
  have "symbol_loop (of_nat 0 :: 'a word) (?run @ ?rest) = (of_nat (horner 0 ?run), ?rest)"
    by (rule symbol_loop_run[OF _ stop]) (auto dest: set_takeWhileD)
  then have loop: "symbol_loop (0 :: 'a word) s = (of_nat (spec_key ?run), ?rest)"
    by (simp add: horner_spec_key)
  from assms have "s \<noteq> []" "is_symbol (hd s)"
    by (cases s; auto simp add: convert_def is_symbol_def split: if_splits)+
  from convert_symbol_first[OF this, where ?'a = 'a] assms
  show "k = of_nat (spec_key ?run)" by (simp add: loop)
  show "convert_key s = Some k" using assms by (simp add: convert_key_def)
qed

text \<open>
  The digits \<open>ss << n\<close> writes are read back by \<open>%d\<close> as \<open>n\<close>: the two models of decimal
  notation agree.
\<close>

lemma decimal_snoc: "decimal (ds @ [c]) = 10 * decimal ds + (of_char c - 48)"
  by (simp add: decimal_def)

lemma of_char_digit:
  assumes "k < 10"
  shows "(of_char (char_of (48 + k :: nat)) :: int) = 48 + int k"
proof -
  have "(of_char (char_of (48 + k)) :: int) = int (of_char (char_of (48 + k)))"
    by (simp only: of_nat_of_char)
  also have "\<dots> = int ((48 + k) mod 256)" by simp
  also have "\<dots> = 48 + int k" using assms by simp
  finally show ?thesis .
qed

lemma decimal_put_unsigned: "decimal (put_unsigned n) = int n"
proof (induction n rule: put_unsigned.induct)
  case (1 n)
  show ?case
  proof (cases "n < 10")
    case True
    then show ?thesis
      by (simp add: put_unsigned.simps[of n] decimal_def of_char_digit del: of_char_of)
  next
    case False
    have "decimal (put_unsigned n)
        = 10 * decimal (put_unsigned (n div 10)) + (of_char (char_of (48 + n mod 10)) - 48)"
      using False by (simp add: put_unsigned.simps[of n] decimal_snoc)
    also have "(of_char (char_of (48 + n mod 10)) :: int) = 48 + int (n mod 10)"
      by (rule of_char_digit) simp
    finally have "decimal (put_unsigned n) = 10 * int (n div 10) + int (n mod 10)"
      using "1.IH"[OF False] by simp
    also have "\<dots> = int n" by presburger
    finally show ?thesis .
  qed
qed

subsection \<open>Paths and open failures\<close>

lemma path_buf_ok:
  "fname \<noteq> [] \<Longrightarrow> length fname < 1024 \<Longrightarrow>
   path_buf fname = Inr (if last fname = CHR 0x0A then butlast fname else fname)"
  by (simp add: path_buf_def)

text \<open>
  C8 (amended). For every path that is not empty and fits the 1024-byte buffer with its
  NUL, each of the three constructors gives \<^verbatim>\<open>fopen\<close> the path without its last character
  when that character is a newline (\<^verbatim>\<open>\n\<close>), and the path unchanged otherwise: one trailing
  newline at most is removed, a trailing carriage return is kept, and nothing else is
  changed.
\<close>

theorem constructors_strip_one_newline:
  assumes "fname \<noteq> []" and "length fname < 1024"
  defines "opened \<equiv> (if last fname = CHR 0x0A then butlast fname else fname)"
  shows "KmerFileReader_ctor fs fname h = Inr \<lparr>f_txt = fopen_r fs opened, helper = h\<rparr>
       \<and> BinaryKmerReader_ctor fs fname buf0
           = Inr \<lparr>f_rd = fopen_r fs opened, buf_rd = buf0, curr_rd = 0, max_rd = 0\<rparr>
       \<and> BinaryKmerWriter_ctor creatable fname buf0
           = Inr \<lparr>f_wr = fopen_w creatable opened, curr_wr = 0, buf_wr = buf0\<rparr>"
  using assms(1,2) unfolding opened_def
  by (simp add: KmerFileReader_ctor_def BinaryKmerReader_ctor_def BinaryKmerWriter_ctor_def
      path_buf_ok)

text \<open>
  The path \<^verbatim>\<open>a\n\n\<close> is opened as \<^verbatim>\<open>a\n\<close>: with a file system that has this file only, the
  reader's stream is open.
\<close>

theorem constructors_strip_one_newline_witness:
  "BinaryKmerReader_ctor (\<lambda>path. if path = [CHR ''a'', CHR 0x0A] then Some ''x'' else None)
      [CHR ''a'', CHR 0x0A, CHR 0x0A] (replicate 1024 ''??'')
     = Inr \<lparr>f_rd = Open ''x'', buf_rd = replicate 1024 ''??'', curr_rd = 0, max_rd = 0\<rparr>"
  using constructors_strip_one_newline
    [where fname = "[CHR ''a'', CHR 0x0A, CHR 0x0A]"
       and fs = "\<lambda>path. if path = [CHR ''a'', CHR 0x0A] then Some ''x'' else None"
       and ?buf0.0 = "replicate 1024 ''??''", THEN conjunct2, THEN conjunct1]
  by (simp add: fopen_r_def)

text \<open>
  C8 as stated also has a trailing carriage return removed. With the file \<^verbatim>\<open>a\<close> present,
  the path \<^verbatim>\<open>a\r\<close> is given to \<^verbatim>\<open>fopen\<close> as it is, and the stream is null.
\<close>

theorem carriage_return_kept_counterexample:
  "path_buf [CHR ''a'', CHR 0x0D] = Inr [CHR ''a'', CHR 0x0D]
   \<and> BinaryKmerReader_ctor (\<lambda>path. if path = ''a'' then Some ''x'' else None)
        [CHR ''a'', CHR 0x0D] (replicate 1024 ''??'')
     = Inr \<lparr>f_rd = NULL, buf_rd = replicate 1024 ''??'', curr_rd = 0, max_rd = 0\<rparr>"
  by (simp add: path_buf_def BinaryKmerReader_ctor_def fopen_r_def)

text \<open>
  C6 (amended). When the path given to \<^verbatim>\<open>fopen\<close> cannot be opened, each of the three
  constructors still returns an object, holding a null stream; nothing is reported at that
  time. The null pointer reaches the C library at the first \<open>getNext\<close> of a reader, at its
  \<open>close\<close> or destruction, and at \<open>finish\<close> of a writer.
\<close>

theorem open_failure_gives_null_stream:
  assumes "path_buf fname = Inr path" and "fs path = None" and "\<not> creatable path"
  shows "KmerFileReader_ctor fs fname h = Inr \<lparr>f_txt = NULL, helper = h\<rparr>
       \<and> KmerFileReader_getNext \<lparr>f_txt = NULL, helper = h\<rparr> = Inl NullHandle
       \<and> KmerFileReader_close \<lparr>f_txt = NULL, helper = h\<rparr> = Inl NullHandle
       \<and> BinaryKmerReader_ctor fs fname buf0
           = Inr \<lparr>f_rd = NULL, buf_rd = buf0, curr_rd = 0, max_rd = 0\<rparr>
       \<and> BinaryKmerReader_getNext sz \<lparr>f_rd = NULL, buf_rd = buf0, curr_rd = 0, max_rd = 0\<rparr>
           = Inl NullHandle
       \<and> BinaryKmerReader_dtor \<lparr>f_rd = NULL, buf_rd = buf0, curr_rd = 0, max_rd = 0\<rparr>
           = Inl NullHandle
       \<and> BinaryKmerWriter_ctor creatable fname buf0
           = Inr \<lparr>f_wr = NULL, curr_wr = 0, buf_wr = buf0\<rparr>
       \<and> BinaryKmerWriter_finish \<lparr>f_wr = NULL, curr_wr = 0, buf_wr = buf0\<rparr> = Inl NullHandle"
  using assms
  by (simp add: KmerFileReader_ctor_def BinaryKmerReader_ctor_def BinaryKmerWriter_ctor_def
      fopen_r_def fopen_w_def KmerFileReader_getNext_def BinaryKmerReader_getNext_def
      BinaryKmerWriter_finish_def fwrite_def KmerFileReader_close_def BinaryKmerReader_dtor_def
      fclose_def)

text \<open>An empty file system and the path \<^verbatim>\<open>missing\<close>.\<close>

theorem open_failure_gives_null_stream_witness:
  "KmerFileReader_ctor (\<lambda>path. None) ''missing'' (convert :: string \<Rightarrow> (64 word \<times> int outval) option)
     = Inr \<lparr>f_txt = NULL, helper = convert\<rparr>
   \<and> BinaryKmerWriter_ctor (\<lambda>path. False) ''missing'' (replicate 1024 ''??'')
       = Inr \<lparr>f_wr = NULL, curr_wr = 0, buf_wr = replicate 1024 ''??''\<rparr>
   \<and> BinaryKmerWriter_finish \<lparr>f_wr = NULL, curr_wr = 0, buf_wr = replicate 1024 ''??''\<rparr>
       = Inl NullHandle"
  using open_failure_gives_null_stream
    [where fname = "''missing''" and path = "''missing''" and fs = "\<lambda>path. None"
       and creatable = "\<lambda>path. False" and ?buf0.0 = "replicate 1024 ''??''"
       and h = "convert :: string \<Rightarrow> (64 word \<times> int outval) option"]
  by (simp add: path_buf_def)

text \<open>
  C6 as stated has the construction fail. On a file system with no file at all the reader
  is constructed, with a null stream.
\<close>

theorem open_failure_not_reported_counterexample:
  "BinaryKmerReader_ctor (\<lambda>path. None) ''missing'' (replicate 1024 ''??'')
     = Inr \<lparr>f_rd = NULL, buf_rd = replicate 1024 ''??'', curr_rd = 0, max_rd = 0\<rparr>"
  by (simp add: BinaryKmerReader_ctor_def path_buf_def fopen_r_def)

subsection \<open>The text reader\<close>

lemma fgets_full_buffer:
  assumes "length piece = 1023" and "CHR 0x0A \<notin> set piece"
  shows "fgets 1024 (piece @ rest) = Some (piece, rest)"
proof -
  have "takeWhile (\<lambda>c. c \<noteq> CHR 0x0A) (piece @ rest) = piece @ takeWhile (\<lambda>c. c \<noteq> CHR 0x0A) rest"
    using assms(2) by (intro takeWhile_append2) auto
  then have "min (1024 - 1) (length (takeWhile (\<lambda>c. c \<noteq> CHR 0x0A) (piece @ rest)) + 1) = 1023"
    using assms(1) by simp
  moreover have "piece @ rest \<noteq> []" using assms(1) by auto
  ultimately show ?thesis
    using assms(1) by (simp add: fgets_def Let_def)
qed

text \<open>A line of fewer than 1023 bytes and its newline are taken whole.\<close>

lemma fgets_whole_line:
  assumes "length line < 1023" and "CHR 0x0A \<notin> set line"
  shows "fgets 1024 (line @ CHR 0x0A # rest) = Some (line @ [CHR 0x0A], rest)"
proof -
  have "takeWhile (\<lambda>c. c \<noteq> CHR 0x0A) (line @ CHR 0x0A # rest)
      = line @ takeWhile (\<lambda>c. c \<noteq> CHR 0x0A) (CHR 0x0A # rest)"
    using assms(2) by (intro takeWhile_append2) auto
  then have "takeWhile (\<lambda>c. c \<noteq> CHR 0x0A) (line @ CHR 0x0A # rest) = line"
    by simp
  moreover have "min (1024 - 1) (length line + 1) = Suc (length line)"
    using assms(1) by simp
  ultimately show ?thesis
    by (simp add: fgets_def Let_def)
qed

lemma horner_A_run: "horner 0 (replicate n CHR ''A'') = 0"
  by (induction n) (simp_all add: spec_value_def)

lemma convert_A_run:
  assumes "0 < n"
  shows "(convert (replicate n CHR ''A'') :: ('a::len word \<times> int outval) option)
     = Some (0, Indeterminate)"
proof -
  let ?run = "replicate n CHR ''A''"
  have "symbol_loop (of_nat 0 :: 'a word) (?run @ []) = (of_nat (horner 0 ?run), [])"
    by (rule symbol_loop_run) (simp_all add: is_symbol_def)
  then have loop: "symbol_loop (0 :: 'a word) ?run = (0, [])"
    by (simp add: horner_A_run)
  have scan: "sscanf_d [] = NoConversion" by (simp add: sscanf_d_def)
  have "?run \<noteq> []" "is_symbol (hd ?run)" using assms by (simp_all add: is_symbol_def)
  from convert_symbol_first[OF this, where ?'a = 'a] show ?thesis
    by (simp add: loop scan)
qed

text \<open>
  C7 (amended). \<open>getNext\<close> takes at most 1023 bytes of a line in one call. When the stream
  begins with 1023 bytes without a newline, whatever follows, the call gives exactly
  these bytes to \<open>convert\<close>, returns what \<open>convert\<close> returns and leaves the rest of the line
  in the stream for the next calls; it reports no overflow.
\<close>

theorem getNext_takes_1023_bytes:
  assumes "length piece = 1023" and "CHR 0x0A \<notin> set piece" and "f_txt r = Open (piece @ rest)"
  shows "KmerFileReader_getNext r = Inr (r\<lparr>f_txt := Open rest\<rparr>, helper r piece)"
  using assms(3) by (simp add: KmerFileReader_getNext_def fgets_full_buffer[OF assms(1,2)])

text \<open>A stream of 1023 \<^verbatim>\<open>A\<close> followed by \<^verbatim>\<open>CG 5\<close> and a newline.\<close>

theorem getNext_takes_1023_bytes_witness:
  "KmerFileReader_getNext
      \<lparr>f_txt = Open (replicate 1023 CHR ''A'' @ ''CG 5'' @ [CHR 0x0A]),
       helper = (convert :: string \<Rightarrow> (64 word \<times> int outval) option)\<rparr>
     = Inr (\<lparr>f_txt = Open (''CG 5'' @ [CHR 0x0A]), helper = convert\<rparr>,
            convert (replicate 1023 CHR ''A''))"
  using getNext_takes_1023_bytes
    [of "replicate 1023 CHR ''A''"
        "\<lparr>f_txt = Open (replicate 1023 CHR ''A'' @ ''CG 5'' @ [CHR 0x0A]),
          helper = (convert :: string \<Rightarrow> (64 word \<times> int outval) option)\<rparr>"
        "''CG 5'' @ [CHR 0x0A]"]
  by simp

text \<open>
  C7 as stated has a line of more than 1024 bytes rejected and never split. The line of
  1023 \<^verbatim>\<open>A\<close> followed by \<^verbatim>\<open>CG 5\<close> and a newline has 1028 bytes. The first call returns true
  with the key of the 1023 \<^verbatim>\<open>A\<close> and no value read, the second returns true with the key 6
  of \<^verbatim>\<open>CG\<close> and the value 5: one line, two records.
\<close>

theorem long_line_split_counterexample:
  "length (replicate 1023 CHR ''A'' @ ''CG 5'' @ [CHR 0x0A]) = 1028
   \<and> KmerFileReader_getNext
        \<lparr>f_txt = Open (replicate 1023 CHR ''A'' @ ''CG 5'' @ [CHR 0x0A]),
         helper = (convert :: string \<Rightarrow> (64 word \<times> int outval) option)\<rparr>
     = Inr (\<lparr>f_txt = Open (''CG 5'' @ [CHR 0x0A]), helper = convert\<rparr>, Some (0, Indeterminate))
   \<and> KmerFileReader_getNext
        \<lparr>f_txt = Open (''CG 5'' @ [CHR 0x0A]),
         helper = (convert :: string \<Rightarrow> (64 word \<times> int outval) option)\<rparr>
     = Inr (\<lparr>f_txt = Open [], helper = convert\<rparr>, Some (6, Initialised 5))"
proof -
  have a: "convert (replicate 1023 CHR ''A'') = Some (0 :: 64 word, Indeterminate)"
    by (rule convert_A_run) simp
  have b: "fgets 1024 (replicate 1023 CHR ''A'' @ ''CG 5'' @ [CHR 0x0A])
      = Some (replicate 1023 CHR ''A'', ''CG 5'' @ [CHR 0x0A])"
    by (rule fgets_full_buffer) simp_all
  have c: "fgets 1024 (''CG 5'' @ [CHR 0x0A]) = Some (''CG 5'' @ [CHR 0x0A], [])"
    by (simp add: fgets_def)
  have d: "convert (''CG 5'' @ [CHR 0x0A]) = Some (6 :: 64 word, Initialised 5)"
    by (simp add: convert_def is_symbol_def symbol_switch_def sscanf_d_def isspace_def
        isdigit_def decimal_def)
  show ?thesis
    unfolding KmerFileReader_getNext_def by (simp add: a b c d del: append.simps)
qed

subsection \<open>The binary stream\<close>

lemma concat_records_length:
  "\<forall>x\<in>set q. length x = sz \<Longrightarrow> length (concat q) = length q * sz"
  by (induction q) auto

lemma drop_concat_records:
  "\<forall>x\<in>set q. length x = sz \<Longrightarrow> drop (n * sz) (concat q) = concat (drop n q)"
proof (induction q arbitrary: n)
  case Nil
  then show ?case by simp
next
  case (Cons x q)
  show ?case
  proof (cases n)
    case 0
    then show ?thesis by simp
  next
    case (Suc m)
    then show ?thesis using Cons by simp
  qed
qed

lemma nth_record:
  assumes "\<forall>x\<in>set q. length x = sz" "i < length q"
  shows "take sz (drop (i * sz) (concat q)) = q ! i"
proof -
  have "drop (i * sz) (concat q) = concat (drop i q)"
    by (rule drop_concat_records[OF assms(1)])
  also have "drop i q = q ! i # drop (Suc i) q"
    using assms(2) by (simp add: Cons_nth_drop_Suc)
  finally show ?thesis using assms by simp
qed

lemma fread_records:
  assumes sz: "0 < sz" and q: "\<forall>x\<in>set q. length x = sz"
  shows "fread slots sz n (concat q) = (take n q @ drop (min n (length q)) slots, min n (length q), concat (drop n q))"
proof -
  let ?k = "min n (length q)"
  have len: "length (concat q) div sz = length q"
    using sz by (simp add: concat_records_length[OF q])
  have items: "map (\<lambda>i. take sz (drop (i * sz) (concat q))) [0..<?k] = take n q"
  proof (rule nth_equalityI)
    show "length (map (\<lambda>i. take sz (drop (i * sz) (concat q))) [0..<?k]) = length (take n q)"
      by simp
  next
    fix i assume "i < length (map (\<lambda>i. take sz (drop (i * sz) (concat q))) [0..<?k])"
    then have i: "i < n" "i < length q" by simp_all
    then show "map (\<lambda>i. take sz (drop (i * sz) (concat q))) [0..<?k] ! i = take n q ! i"
      by (simp add: nth_record[OF q])
  qed
  have part: "drop (?k * sz) (concat q) = []" if "?k < n"
  proof -
    from that have "?k = length q" by simp
    then show ?thesis by (simp add: concat_records_length[OF q])
  qed
  have rest: "drop (n * sz) (concat q) = concat (drop n q)"
    by (rule drop_concat_records[OF q])
  show ?thesis
    unfolding fread_def Let_def len items rest
    using sz part by auto
qed

lemma getNext_end:
  assumes sz: "0 < sz" and u: "unread_records sz r []"
  shows "\<exists>r'. BinaryKmerReader_getNext sz r = Inr (r', None, Returns False)"
proof -
  from u obtain q where q: "f_rd r = Open (concat q)" "\<forall>x\<in>set q. length x = sz"
    and e: "drop (nat (curr_rd r)) (take (nat (max_rd r)) (buf_rd r)) @ q = []"
    and b: "0 \<le> curr_rd r" "curr_rd r \<le> max_rd r" "max_rd r \<le> int buflen"
      "buflen \<le> length (buf_rd r)"
    by (auto simp add: unread_records_def)
  from e have "q = []" by simp
  from e have "length (take (nat (max_rd r)) (buf_rd r)) \<le> nat (curr_rd r)" by simp
  with b have "curr_rd r = max_rd r" by (simp add: min_def split: if_splits)
  then show ?thesis
    using q(1) \<open>q = []\<close> sz by (simp add: BinaryKmerReader_getNext_def fread_def)
qed

lemma getNext_record:
  assumes sz: "0 < sz" and u: "unread_records sz r (x # xs)"
  shows "\<exists>r'. BinaryKmerReader_getNext sz r = Inr (r', Some x, NoReturn) \<and> unread_records sz r' xs"
proof -
  from u obtain q where q: "f_rd r = Open (concat q)" "\<forall>x\<in>set q. length x = sz"
    and e: "drop (nat (curr_rd r)) (take (nat (max_rd r)) (buf_rd r)) @ q = x # xs"
    and b: "0 \<le> curr_rd r" "curr_rd r \<le> max_rd r" "max_rd r \<le> int buflen"
      "buflen \<le> length (buf_rd r)"
    by (auto simp add: unread_records_def)
  let ?c = "nat (curr_rd r)" and ?m = "nat (max_rd r)"
  show ?thesis
  proof (cases "curr_rd r = max_rd r")
    case False
    with b have lt: "?c < ?m" "?m \<le> length (buf_rd r)" by simp_all
    then have c_len: "?c < length (take ?m (buf_rd r))" by simp
    have "drop ?c (take ?m (buf_rd r)) = buf_rd r ! ?c # drop (Suc ?c) (take ?m (buf_rd r))"
      using Cons_nth_drop_Suc[OF c_len] lt by simp
    with e have x: "x = buf_rd r ! ?c" and xs: "xs = drop (Suc ?c) (take ?m (buf_rd r)) @ q"
      by simp_all
    let ?r' = "r\<lparr>curr_rd := curr_rd r + 1\<rparr>"
    have "BinaryKmerReader_getNext sz r = Inr (?r', Some x, NoReturn)"
      using False b lt x by (simp add: BinaryKmerReader_getNext_def copy_out_def)
    moreover have "unread_records sz ?r' xs"
      unfolding unread_records_def
    proof (intro conjI exI[of _ q])
      show "xs = drop (nat (curr_rd ?r')) (take (nat (max_rd ?r')) (buf_rd ?r')) @ q"
        using xs b by (simp add: nat_add_distrib)
    qed (use q b False in simp_all)
    ultimately show ?thesis by blast
  next
    case True
    with b e have qx: "q = x # xs" by simp
    let ?k = "min buflen (length q)"
    let ?slots = "take buflen q @ drop ?k (buf_rd r)"
    have k: "0 < ?k" "?k \<le> buflen" by (simp_all add: qx buflen_def)
    have fr: "fread (buf_rd r) sz buflen (concat q) = (?slots, ?k, concat (drop buflen q))"
      by (rule fread_records[OF sz q(2)])
    have slots0: "?slots ! 0 = x" by (simp add: qx buflen_def)
    have slots_len: "length ?slots = length (buf_rd r)" using b(4) by simp
    let ?r' = "r\<lparr>f_rd := Open (concat (drop buflen q)), buf_rd := ?slots, max_rd := int ?k, curr_rd := 1\<rparr>"
    have pos: "0 < length (buf_rd r)" using b(4) unfolding buflen_def by linarith
    have k0: "?k \<noteq> 0" using k(1) by simp
    have copy: "copy_out (r\<lparr>f_rd := Open (concat (drop buflen q)), buf_rd := ?slots,
                  max_rd := int ?k, curr_rd := 0\<rparr>) = Inr (?r', Some x, NoReturn)"
      using pos slots0 slots_len by (simp add: copy_out_def)
    have "BinaryKmerReader_getNext sz r = Inr (?r', Some x, NoReturn)"
      using True q(1) k0 copy
      by (simp add: BinaryKmerReader_getNext_def fr Let_def)
    moreover have "unread_records sz ?r' xs"
      unfolding unread_records_def
    proof (intro conjI exI[of _ "drop buflen q"])
      have "take ?k ?slots = take buflen q" by (simp add: min_def)
      then have "drop 1 (take ?k ?slots) @ drop buflen q = drop 1 (take buflen q @ drop buflen q)"
        by (simp add: buflen_def qx)
      then show "xs = drop (nat (curr_rd ?r')) (take (nat (max_rd ?r')) (buf_rd ?r')) @ drop buflen q"
        by (simp add: qx)
      show "\<forall>x\<in>set (drop buflen q). length x = sz"
        using q(2) by (auto dest: in_set_dropD)
      show "buflen \<le> length (buf_rd ?r')" using b(4) by simp
    qed (simp_all add: qx buflen_def)
    ultimately show ?thesis by blast
  qed
qed

lemma take_update_last: "n < length xs \<Longrightarrow> take (Suc n) (xs[n := p]) = take n xs @ [p]"
  by (simp add: take_Suc_conv_app_nth)

lemma write_appends:
  assumes "written_records w bytes"
  shows "\<exists>w'. BinaryKmerWriter_write w p = Inr w' \<and> written_records w' (bytes @ p)"
proof -
  from assms obtain flushed where f: "f_wr w = Open flushed"
    and bytes: "bytes = flushed @ concat (take (nat (curr_wr w)) (buf_wr w))"
    and b: "0 \<le> curr_wr w" "curr_wr w < int buflen" "buflen \<le> length (buf_wr w)"
    by (auto simp add: written_records_def)
  let ?c = "nat (curr_wr w)"
  have c: "?c < length (buf_wr w)" "curr_wr w < int (length (buf_wr w))" using b by simp_all
  let ?buf = "(buf_wr w)[?c := p]"
  have tk: "take (Suc ?c) ?buf = take ?c (buf_wr w) @ [p]"
    by (rule take_update_last[OF c(1)])
  show ?thesis
  proof (cases "curr_wr w + 1 = int buflen")
    case True
    then have full: "buflen = Suc ?c" using b by simp
    let ?w' = "w\<lparr>buf_wr := ?buf, curr_wr := 0, f_wr := Open (flushed @ concat (take buflen ?buf))\<rparr>"
    have "BinaryKmerWriter_write w p = Inr ?w'"
      using True b c(2) f by (simp add: BinaryKmerWriter_write_def fwrite_def)
    moreover have "written_records ?w' (bytes @ p)"
      using b(3) by (simp add: written_records_def bytes full tk)
    ultimately show ?thesis by blast
  next
    case False
    let ?w' = "w\<lparr>buf_wr := ?buf, curr_wr := curr_wr w + 1\<rparr>"
    have "BinaryKmerWriter_write w p = Inr ?w'"
      using False b c(2) by (simp add: BinaryKmerWriter_write_def)
    moreover have "nat (curr_wr w + 1) = Suc ?c" using b by simp
    then have "written_records ?w' (bytes @ p)"
      using False b f by (simp add: written_records_def bytes tk)
    ultimately show ?thesis by blast
  qed
qed

lemma write_all_appends:
  "written_records w bytes \<Longrightarrow>
   \<exists>w'. write_all w ps = Inr w' \<and> written_records w' (bytes @ concat ps)"
proof (induction ps arbitrary: w bytes)
  case Nil
  then show ?case by simp
next
  case (Cons p ps)
  from write_appends[OF Cons.prems, of p] obtain w1
    where w1: "BinaryKmerWriter_write w p = Inr w1" "written_records w1 (bytes @ p)" by blast
  from Cons.IH[OF w1(2)] obtain w' where "write_all w1 ps = Inr w'"
    "written_records w' ((bytes @ p) @ concat ps)" by blast
  then show ?case using w1(1) by simp
qed

lemma finish_closes:
  assumes "written_records w bytes"
  shows "\<exists>w'. BinaryKmerWriter_finish w = Inr w' \<and> f_wr w' = Closed bytes \<and> curr_wr w' = 0"
  using assms
  by (auto simp add: written_records_def BinaryKmerWriter_finish_def fwrite_def fclose_def)

text \<open>
  The writer's half. Records written one by one to a writer opened on a path that can be
  created, then \<open>finish\<close>: every call is defined and the closed stream holds the records'
  bytes in the order written and nothing else, whatever their number.
\<close>

lemma writer_stream_holds_records:
  assumes path: "path_buf fname = Inr path" and creatable: "creatable path"
    and slots: "length wbuf0 = 1024"
  shows "\<exists>w0 w1 w2.
           BinaryKmerWriter_ctor creatable fname wbuf0 = Inr w0
         \<and> write_all w0 records = Inr w1
         \<and> BinaryKmerWriter_finish w1 = Inr w2
         \<and> f_wr w2 = Closed (concat records) \<and> curr_wr w2 = 0"
proof -
  let ?w0 = "\<lparr>f_wr = Open [], curr_wr = 0, buf_wr = wbuf0\<rparr>"
  have w0: "BinaryKmerWriter_ctor creatable fname wbuf0 = Inr ?w0"
    using creatable by (simp add: BinaryKmerWriter_ctor_def path fopen_w_def)
  have "written_records ?w0 []"
    using slots by (simp add: written_records_def buflen_def)
  from write_all_appends[OF this, of records] obtain w1
    where w1: "write_all ?w0 records = Inr w1" "written_records w1 (concat records)" by auto
  from finish_closes[OF w1(2)] obtain w2
    where "BinaryKmerWriter_finish w1 = Inr w2" "f_wr w2 = Closed (concat records)"
      "curr_wr w2 = 0" by blast
  with w0 w1(1) show ?thesis by blast
qed

text \<open>
  The reader's half, call by call. A reader opened on a stream of whole records has them
  all to deliver; by \<open>getNext_record\<close> each call then stores the next record in \<^verbatim>\<open>*ret\<close>,
  in the order of the stream, and by \<open>getNext_end\<close> the call after the last one returns
  \<^verbatim>\<open>false\<close>. None of the calls that store a record returns a value.
\<close>

lemma reader_opens_on_records:
  assumes "path_buf fname = Inr path" and "fs path = Some (concat records)"
    and "\<forall>p\<in>set records. length p = sz" and "length rbuf0 = 1024"
  shows "\<exists>r0. BinaryKmerReader_ctor fs fname rbuf0 = Inr r0 \<and> unread_records sz r0 records"
  using assms
  by (simp add: BinaryKmerReader_ctor_def fopen_r_def unread_records_def buflen_def)

text \<open>
  C2 asks that the records written are read back by calling \<open>getNext\<close> until it reports the
  end of the stream. One record of two bytes: \<open>write\<close> and \<open>finish\<close> leave its two bytes in
  the stream. The first \<open>getNext\<close> of a reader opened on them stores the record in \<^verbatim>\<open>*ret\<close>
  and reaches the end of the function with no \<^verbatim>\<open>return\<close>: the call gives its caller no
  value to test, so the code does not say whether a reading loop goes on, and the record
  is not read back by a loop that tests the result of \<open>getNext\<close>.
\<close>

theorem read_back_call_returns_nothing:
  "BinaryKmerWriter_ctor (\<lambda>path. True) ''kmers.bin'' (replicate 1024 ''??'')
     = Inr \<lparr>f_wr = Open [], curr_wr = 0, buf_wr = replicate 1024 ''??''\<rparr>
   \<and> BinaryKmerWriter_write \<lparr>f_wr = Open [], curr_wr = 0, buf_wr = replicate 1024 ''??''\<rparr> ''k1''
     = Inr \<lparr>f_wr = Open [], curr_wr = 1, buf_wr = ''k1'' # replicate 1023 ''??''\<rparr>
   \<and> BinaryKmerWriter_finish \<lparr>f_wr = Open [], curr_wr = 1, buf_wr = ''k1'' # replicate 1023 ''??''\<rparr>
     = Inr \<lparr>f_wr = Closed ''k1'', curr_wr = 0, buf_wr = ''k1'' # replicate 1023 ''??''\<rparr>
   \<and> BinaryKmerReader_ctor (\<lambda>path. if path = ''kmers.bin'' then Some ''k1'' else None)
       ''kmers.bin'' (replicate 1024 ''??'')
     = Inr \<lparr>f_rd = Open ''k1'', buf_rd = replicate 1024 ''??'', curr_rd = 0, max_rd = 0\<rparr>
   \<and> (\<exists>r1. BinaryKmerReader_getNext 2
          \<lparr>f_rd = Open ''k1'', buf_rd = replicate 1024 ''??'', curr_rd = 0, max_rd = 0\<rparr>
        = Inr (r1, Some ''k1'', NoReturn))"
proof -
  have slots: "replicate 1024 ''??'' = ''??'' # replicate 1023 ''??''"
    by (simp add: replicate_Suc[symmetric] del: replicate_Suc)
  have "BinaryKmerWriter_write \<lparr>f_wr = Open [], curr_wr = 0, buf_wr = replicate 1024 ''??''\<rparr> ''k1''
     = Inr \<lparr>f_wr = Open [], curr_wr = 1, buf_wr = ''k1'' # replicate 1023 ''??''\<rparr>"
    by (simp add: BinaryKmerWriter_write_def buflen_def) (simp add: slots)
  moreover have "BinaryKmerWriter_finish \<lparr>f_wr = Open [], curr_wr = 1, buf_wr = ''k1'' # replicate 1023 ''??''\<rparr>
     = Inr \<lparr>f_wr = Closed ''k1'', curr_wr = 0, buf_wr = ''k1'' # replicate 1023 ''??''\<rparr>"
    by (simp add: BinaryKmerWriter_finish_def fwrite_def fclose_def)
  moreover have "\<exists>r1. BinaryKmerReader_getNext 2
          \<lparr>f_rd = Open ''k1'', buf_rd = replicate 1024 ''??'', curr_rd = 0, max_rd = 0\<rparr>
        = Inr (r1, Some ''k1'', NoReturn)"
    by (simp add: BinaryKmerReader_getNext_def fread_def buflen_def copy_out_def)
  ultimately show ?thesis
    by (simp add: BinaryKmerWriter_ctor_def BinaryKmerReader_ctor_def path_buf_def fopen_w_def
        fopen_r_def)
qed

text \<open>
  The cursor of the writer: \<open>0 \<le> curr < 16\<close> is kept by every \<open>write\<close>, which touches slot
  \<^verbatim>\<open>curr\<close> only, and \<open>finish\<close> leaves \<open>curr = 0\<close>.
\<close>

lemma write_keeps_cursor_in_range:
  assumes "0 \<le> curr_wr w" and "curr_wr w < int buflen" and "buflen \<le> length (buf_wr w)"
    and "BinaryKmerWriter_write w p = Inr w'"
  shows "0 \<le> curr_wr w' \<and> curr_wr w' < int buflen \<and> buflen \<le> length (buf_wr w')
       \<and> (\<forall>i. i \<noteq> nat (curr_wr w) \<longrightarrow> buf_wr w' ! i = buf_wr w ! i)"
  using assms
  by (auto simp add: BinaryKmerWriter_write_def Let_def buflen_def fwrite_def
      split: if_splits sum.splits FILE.splits)

lemma finish_resets_cursor:
  "BinaryKmerWriter_finish w = Inr w' \<Longrightarrow> curr_wr w' = 0"
  by (auto simp add: BinaryKmerWriter_finish_def split: sum.splits)

text \<open>
  The cursor of the reader: \<open>0 \<le> curr \<le> max \<le> 16\<close> is kept by every \<open>getNext\<close> that does not
  return \<^verbatim>\<open>false\<close>, on any stream. No call returns \<^verbatim>\<open>true\<close>: a call either returns \<^verbatim>\<open>false\<close>
  with \<^verbatim>\<open>*ret\<close> untouched, or stores a record and returns nothing.
\<close>

lemma fread_count:
  "fread slots sz n bytes = (slots', k, rest) \<Longrightarrow>
   k \<le> n \<and> (k \<le> length slots \<longrightarrow> length slots' = length slots)"
  by (auto simp add: fread_def Let_def split: if_splits)

lemma getNext_record_keeps_cursor_in_range:
  assumes inv: "0 \<le> curr_rd r" "curr_rd r \<le> max_rd r" "max_rd r \<le> int buflen"
      "buflen \<le> length (buf_rd r)"
    and call: "BinaryKmerReader_getNext sz r = Inr (r', ret, rv)" and rv: "rv \<noteq> Returns False"
  shows "0 \<le> curr_rd r' \<and> curr_rd r' \<le> max_rd r' \<and> max_rd r' \<le> int buflen
       \<and> buflen \<le> length (buf_rd r')"
proof (cases "curr_rd r = max_rd r")
  case False
  with inv call show ?thesis
    by (auto simp add: BinaryKmerReader_getNext_def copy_out_def split: if_splits)
next
  case True
  then obtain bytes where f: "f_rd r = Open bytes"
    using call by (cases "f_rd r") (simp_all add: BinaryKmerReader_getNext_def)
  obtain slots k rest where fr: "fread (buf_rd r) sz buflen bytes = (slots, k, rest)"
    by (cases "fread (buf_rd r) sz buflen bytes") auto
  from fread_count[OF fr] inv(4) have k: "k \<le> buflen" "length slots = length (buf_rd r)"
    by simp_all
  from call rv True f fr have "k \<noteq> 0"
    by (auto simp add: BinaryKmerReader_getNext_def Let_def split: if_splits)
  with call True f fr k inv(4) show ?thesis
    by (auto simp add: BinaryKmerReader_getNext_def Let_def copy_out_def split: if_splits)
qed

lemma getNext_never_returns_true:
  assumes "BinaryKmerReader_getNext sz r = Inr (r', ret, rv)"
  shows "(rv = Returns False \<and> ret = None) \<or> (rv = NoReturn \<and> ret \<noteq> None)"
  using assms
  by (auto simp add: BinaryKmerReader_getNext_def copy_out_def Let_def
      split: if_splits FILE.splits prod.splits)

text \<open>
  After the call that returns \<^verbatim>\<open>false\<close>. A reader that has delivered all its \<^verbatim>\<open>max\<close> buffered
  records and whose stream is used up returns \<^verbatim>\<open>false\<close> and keeps \<^verbatim>\<open>curr\<close> where it was,
  above the new \<^verbatim>\<open>max = 0\<close>; the call after that delivers slot \<^verbatim>\<open>curr\<close> of the array, slot 16
  when the last refill gave 16 records.
\<close>

lemma getNext_after_end:
  assumes "0 < sz" and "f_rd r = Open []" and "curr_rd r = max_rd r" and "0 < curr_rd r"
    and "curr_rd r < int (length (buf_rd r))"
  shows "BinaryKmerReader_getNext sz r = Inr (r\<lparr>max_rd := 0\<rparr>, None, Returns False)"
    and "BinaryKmerReader_getNext sz (r\<lparr>max_rd := 0\<rparr>)
           = Inr (r\<lparr>max_rd := 0, curr_rd := curr_rd r + 1\<rparr>,
                  Some (buf_rd r ! nat (curr_rd r)), NoReturn)"
  using assms
  by (simp_all add: BinaryKmerReader_getNext_def fread_def copy_out_def)

text \<open>
  C5 asks for a return value on every path. A reader opened on a stream of one record of
  two bytes: the first call reads the record into the buffer, copies it to \<^verbatim>\<open>*ret\<close>, sets
  \<^verbatim>\<open>curr\<close> to 1 and reaches the end of the function body, where there is no \<^verbatim>\<open>return\<close>.
\<close>

theorem getNext_copy_path_returns_nothing:
  "BinaryKmerReader_ctor (\<lambda>path. Some ''k1'') ''kmers.bin'' (replicate 1024 ''??'')
     = Inr \<lparr>f_rd = Open ''k1'', buf_rd = replicate 1024 ''??'', curr_rd = 0, max_rd = 0\<rparr>
   \<and> BinaryKmerReader_getNext 2
       \<lparr>f_rd = Open ''k1'', buf_rd = replicate 1024 ''??'', curr_rd = 0, max_rd = 0\<rparr>
     = Inr (\<lparr>f_rd = Open [], buf_rd = ''k1'' # replicate 1023 ''??'', curr_rd = 1, max_rd = 1\<rparr>,
            Some ''k1'', NoReturn)"
  by (simp add: BinaryKmerReader_ctor_def path_buf_def fopen_r_def BinaryKmerReader_getNext_def
      fread_def buflen_def copy_out_def)

text \<open>
  C10 asks for \<open>0 \<le> curr \<le> max \<le> 16\<close> after every \<open>getNext\<close>. On the same stream the second
  call finds the buffer used up, reads nothing, sets \<^verbatim>\<open>max\<close> to 0 and returns \<^verbatim>\<open>false\<close>
  before \<^verbatim>\<open>curr = 0\<close>: it leaves \<^verbatim>\<open>curr = 1\<close> above \<^verbatim>\<open>max = 0\<close>. A third call then skips the
  refill, copies slot 1, which was never filled, and moves on to slot 2.
\<close>

theorem getNext_end_leaves_cursor_above_max:
  "BinaryKmerReader_getNext 2
       \<lparr>f_rd = Open [], buf_rd = ''k1'' # replicate 1023 ''??'', curr_rd = 1, max_rd = 1\<rparr>
     = Inr (\<lparr>f_rd = Open [], buf_rd = ''k1'' # replicate 1023 ''??'', curr_rd = 1, max_rd = 0\<rparr>,
            None, Returns False)
   \<and> BinaryKmerReader_getNext 2
       \<lparr>f_rd = Open [], buf_rd = ''k1'' # replicate 1023 ''??'', curr_rd = 1, max_rd = 0\<rparr>
     = Inr (\<lparr>f_rd = Open [], buf_rd = ''k1'' # replicate 1023 ''??'', curr_rd = 2, max_rd = 0\<rparr>,
            Some ''??'', NoReturn)"
  by (simp add: BinaryKmerReader_getNext_def fread_def buflen_def copy_out_def)

end
